theory Spec2Isabelle
  imports Complex_Main "HOL-Library.Multiset"
begin

section \<open>The calendar layout of calendar.js\<close>

text \<open>
  The program lays out the events of one day in columns. A \<open>Calendar\<close> holds the
  events still to be placed (\<open>events\<close>), the events already placed, one array per
  column (\<open>events_calculated\<close>), and the collision clusters (\<open>collision_clusters\<close>).
  All three arrays hold references to the same \<open>Event\<close> objects, which are mutated in
  place (\<open>column\<close>, \<open>collisions\<close>, \<open>width\<close>, \<open>left\<close>). The model therefore keeps
  the objects in a store \<open>objs\<close>, addressed by the position the record had in the
  input, and the arrays hold these addresses. Two records with equal times are two
  objects, as in the source, where \<open>$.inArray\<close> compares by identity.

  A finite JavaScript number is a rational, and comparisons of such numbers are
  exact. The quotient and the product in \<open>resize\<close> are IEEE 754 binary64 operations:
  the exact result rounded to the nearest double, ties to even. Integers below
  \<open>2^53\<close> are doubles, so the column counter and array positions are natural
  numbers. A \<open>TypeError\<close> thrown by reading a property of \<open>undefined\<close> is the value
  \<open>Inl TypeError\<close>.
\<close>

subsection \<open>Data\<close>

type_synonym ref = nat

datatype error = TypeError

subsection \<open>Numbers\<close>

text \<open>
  The values a computed JavaScript number can take. Zero stands for both signed zeros,
  which compare equal; no operation of the program distinguishes them.
\<close>

datatype number = Finite rat | PosInfinity | NegInfinity | NaN

text \<open>\<open>floor_log2 n\<close> is the integer part of the binary logarithm of \<open>n \<ge> 1\<close>.\<close>

function floor_log2 :: "int \<Rightarrow> nat" where
  "floor_log2 n = (if n < 2 then 0 else Suc (floor_log2 (n div 2)))"
  by pat_completeness auto
termination
  by (relation "measure nat") auto

declare floor_log2.simps [simp del]

text \<open>\<open>ceil_log2 n\<close> is the least \<open>m\<close> with \<open>n \<le> 2^m\<close>.\<close>

definition ceil_log2 :: "int \<Rightarrow> nat" where
  "ceil_log2 n = (if n \<le> 1 then 0 else Suc (floor_log2 (n - 1)))"

text \<open>For \<open>x > 0\<close>, the exponent \<open>e\<close> with \<open>2^e \<le> x < 2^(e+1)\<close>.\<close>

definition binary_exponent :: "rat \<Rightarrow> int" where
  "binary_exponent x =
     (if 1 \<le> x then int (floor_log2 \<lfloor>x\<rfloor>) else - int (ceil_log2 \<lceil>1 / x\<rceil>))"

definition round_half_even :: "rat \<Rightarrow> int" where
  "round_half_even y =
     (let f = \<lfloor>y\<rfloor>; d = y - of_int f
      in if d < 1 / 2 then f else if 1 / 2 < d then f + 1 else if even f then f else f + 1)"

text \<open>
  Rounding to binary64. A double has 53 significant bits, so in the binade of exponent
  \<open>e\<close> the doubles are the multiples of \<open>2^(e-52)\<close>; below \<open>2^(-1022)\<close> they are
  the multiples of \<open>2^(-1074)\<close>. The magnitude is rounded to the nearest multiple,
  ties to the even one. The result is infinite when it reaches \<open>2^1024\<close>: when
  \<open>e \<ge> 1024\<close>, or when \<open>e = 1023\<close> and the significand rounds up to \<open>2^53\<close>.
\<close>

definition to_double :: "rat \<Rightarrow> number" where
  "to_double x =
     (if x = 0 then Finite 0
      else let a = \<bar>x\<bar>;
               e = max (binary_exponent a) (- 1022);
               u = 2 powi (e - 52);
               m = round_half_even (a / u)
           in if 1024 \<le> e \<or> (e = 1023 \<and> m = 2 ^ 53)
              then (if 0 < x then PosInfinity else NegInfinity)
              else Finite (if 0 < x then of_int m * u else - (of_int m * u)))"

text \<open>\<open>a / b\<close> for finite \<open>a\<close> and \<open>b\<close>.\<close>

definition js_div :: "rat \<Rightarrow> rat \<Rightarrow> number" where
  "js_div a b =
     (if b = 0 then (if a = 0 then NaN else if 0 < a then PosInfinity else NegInfinity)
      else to_double (a / b))"

text \<open>\<open>x * b\<close> for finite \<open>b\<close>.\<close>

fun js_mul :: "number \<Rightarrow> rat \<Rightarrow> number" where
  "js_mul (Finite a) b = to_double (a * b)"
| "js_mul PosInfinity b = (if b = 0 then NaN else if 0 < b then PosInfinity else NegInfinity)"
| "js_mul NegInfinity b = (if b = 0 then NaN else if 0 < b then NegInfinity else PosInfinity)"
| "js_mul NaN b = NaN"

text \<open>\<open>x + y\<close>, \<open>x < y\<close> and \<open>x <= y\<close>.\<close>

fun js_add :: "number \<Rightarrow> number \<Rightarrow> number" where
  "js_add (Finite a) (Finite b) = to_double (a + b)"
| "js_add NaN y = NaN"
| "js_add x NaN = NaN"
| "js_add PosInfinity NegInfinity = NaN"
| "js_add NegInfinity PosInfinity = NaN"
| "js_add PosInfinity y = PosInfinity"
| "js_add NegInfinity y = NegInfinity"
| "js_add x PosInfinity = PosInfinity"
| "js_add x NegInfinity = NegInfinity"

fun js_less :: "number \<Rightarrow> number \<Rightarrow> bool" where
  "js_less (Finite a) (Finite b) = (a < b)"
| "js_less NaN y = False"
| "js_less x NaN = False"
| "js_less x NegInfinity = False"
| "js_less PosInfinity y = False"
| "js_less x PosInfinity = True"
| "js_less NegInfinity y = True"

fun js_le :: "number \<Rightarrow> number \<Rightarrow> bool" where
  "js_le (Finite a) (Finite b) = (a \<le> b)"
| "js_le NaN y = False"
| "js_le x NaN = False"
| "js_le NegInfinity y = True"
| "js_le x PosInfinity = True"
| "js_le x NegInfinity = False"
| "js_le PosInfinity y = False"

subsection \<open>Events and the calendar\<close>

text \<open>A raw input record \<open>{start: s, end: e}\<close>.\<close>

record interval =
  start :: rat
  end' :: rat

text \<open>The fields of \<open>Event\<close>; \<open>this.calendar.width\<close> is read from the calendar.\<close>

record event = interval +
  left :: number
  width :: number
  collisions :: "ref list"
  column :: nat

text \<open>
  The fields of \<open>Calendar\<close>. Its \<open>width\<close> is named \<open>cal_width\<close> here. A cell of
  \<open>events_calculated\<close> is \<open>None\<close> where the JavaScript array has no element.
\<close>

record calendar =
  cal_width :: rat
  objs :: "event list"
  events :: "ref list"
  events_calculated :: "ref list option list"
  collision_clusters :: "ref list list"

subsection \<open>Arrays\<close>

text \<open>\<open>a[i]\<close> for reading: \<open>undefined\<close> beyond the end of the array.\<close>

definition arr_get :: "'a option list \<Rightarrow> nat \<Rightarrow> 'a option" where
  "arr_get xs i = (if i < length xs then xs ! i else None)"

text \<open>\<open>a[i] = v\<close>: JavaScript extends the array, leaving holes, when \<open>i\<close> is beyond its end.\<close>

definition arr_set :: "'a option list \<Rightarrow> nat \<Rightarrow> 'a \<Rightarrow> 'a option list" where
  "arr_set xs i v =
     (if i < length xs then xs[i := Some v]
      else xs @ replicate (i - length xs) None @ [Some v])"

text \<open>\<open>a.splice(i, 1)\<close>: removes the element at \<open>i\<close>, and nothing when \<open>i\<close> is beyond the end.\<close>

definition splice1 :: "'a list \<Rightarrow> nat \<Rightarrow> 'a list" where
  "splice1 xs i = take i xs @ drop (Suc i) xs"

text \<open>\<open>$.inArray(x, a)\<close>: the first position of \<open>x\<close>, or \<open>-1\<close>.\<close>

fun inArray :: "'a \<Rightarrow> 'a list \<Rightarrow> int" where
  "inArray x [] = -1"
| "inArray x (y # ys) =
     (if x = y then 0 else (let r = inArray x ys in if r = -1 then -1 else r + 1))"

text \<open>\<open>removeDuplicates\<close>: \<open>$.grep\<close> keeps the elements whose first position is their own.\<close>

definition removeDuplicates :: "'a list \<Rightarrow> 'a list" where
  "removeDuplicates array =
     map fst (filter (\<lambda>(element, index). inArray element array = int index)
                     (zip array [0..<length array]))"

subsection \<open>Construction and sorting\<close>

definition Event :: "interval \<Rightarrow> rat \<Rightarrow> event" where
  "Event ev w = \<lparr>start = start ev, end' = end' ev, left = Finite 0, width = Finite w,
                 collisions = [], column = 1\<rparr>"

definition Calendar :: "interval list \<Rightarrow> calendar" where
  "Calendar evs = \<lparr>cal_width = 600, objs = map (\<lambda>ev. Event ev 600) evs,
                    events = [0..<length evs], events_calculated = [],
                    collision_clusters = []\<rparr>"

text \<open>The comparator passed to \<open>sort\<close>.\<close>

definition compare_events :: "event \<Rightarrow> event \<Rightarrow> int" where
  "compare_events a b =
     (if start a > start b then 1 else if start b > start a then -1
      else if end' a > end' b then 1 else if end' b > end' a then -1 else 0)"

text \<open>
  \<open>Array.prototype.sort\<close> is modelled as a stable insertion sort: records that compare
  equal keep their input order.
\<close>

fun insert_by :: "('a \<Rightarrow> 'a \<Rightarrow> int) \<Rightarrow> 'a \<Rightarrow> 'a list \<Rightarrow> 'a list" where
  "insert_by cmp x [] = [x]"
| "insert_by cmp x (y # ys) =
     (if cmp x y \<le> 0 then x # y # ys else y # insert_by cmp x ys)"

definition sort_by :: "('a \<Rightarrow> 'a \<Rightarrow> int) \<Rightarrow> 'a list \<Rightarrow> 'a list" where
  "sort_by cmp xs = foldr (insert_by cmp) xs []"

definition sortEvents :: "calendar \<Rightarrow> calendar" where
  "sortEvents cal =
     cal\<lparr>events := sort_by (\<lambda>a b. compare_events (objs cal ! a) (objs cal ! b)) (events cal)\<rparr>"

subsection \<open>Collisions\<close>

definition checkCollision :: "event \<Rightarrow> event \<Rightarrow> bool" where
  "checkCollision this ev \<longleftrightarrow>
     (start this \<le> start ev \<and> start ev < end' this) \<or>
     (start this < end' ev \<and> end' ev \<le> end' this) \<or>
     (start ev \<le> start this \<and> start this < end' ev) \<or>
     (start ev < end' this \<and> end' this \<le> end' ev)"

text \<open>
  \<open>getCollidingEvents\<close> reads \<open>this.events_calculated[column-1]\<close> and calls
  \<open>forEach\<close> on it, which throws when that cell is \<open>undefined\<close>. There is no
  element at index \<open>-1\<close>.
\<close>

definition getCollidingEvents :: "calendar \<Rightarrow> ref \<Rightarrow> nat \<Rightarrow> error + ref list" where
  "getCollidingEvents cal ev col =
     (if col = 0 then Inl TypeError
      else case arr_get (events_calculated cal) (col - 1) of
             None \<Rightarrow> Inl TypeError
           | Some cell \<Rightarrow>
               Inr (filter (\<lambda>event_calculated.
                      checkCollision (objs cal ! ev) (objs cal ! event_calculated)) cell))"

text \<open>The loop of \<open>determineCollidingEvents\<close>, \<open>j\<close> from \<open>this.column - 1\<close> down to 1.\<close>

fun collect_collisions :: "calendar \<Rightarrow> ref \<Rightarrow> nat \<Rightarrow> ref list \<Rightarrow> error + ref list" where
  "collect_collisions cal ev 0 acc = Inr acc"
| "collect_collisions cal ev (Suc j) acc =
     (case getCollidingEvents cal ev (Suc j) of
        Inl e \<Rightarrow> Inl e
      | Inr events_colliding \<Rightarrow> collect_collisions cal ev j (acc @ events_colliding))"

definition determineCollidingEvents :: "calendar \<Rightarrow> ref \<Rightarrow> error + calendar" where
  "determineCollidingEvents cal ev =
     (case collect_collisions cal ev (column (objs cal ! ev) - 1) (collisions (objs cal ! ev)) of
        Inl e \<Rightarrow> Inl e
      | Inr cs \<Rightarrow>
          Inr (cal\<lparr>objs := (objs cal)[ev := (objs cal ! ev)\<lparr>collisions := removeDuplicates cs\<rparr>]\<rparr>))"

subsection \<open>Collision clusters\<close>

text \<open>
  The indices of the clusters that hold one of the colliding events. The inner
  \<open>forEach\<close> is the array method, which ignores the \<open>return false\<close>: every
  cluster holding the event is recorded.
\<close>

definition clusters_of :: "ref list list \<Rightarrow> ref list \<Rightarrow> nat list" where
  "clusters_of cls cs =
     concat (map (\<lambda>collision_event.
               filter (\<lambda>index. inArray collision_event (cls ! index) > -1) [0..<length cls]) cs)"

text \<open>
  \<open>determineCollisionClusters\<close>. With the list \<open>first # rest\<close> of cluster indices to
  merge, the clusters of \<open>rest\<close> are appended to the cluster \<open>first\<close>, in order, and
  then the positions of \<open>rest\<close> are spliced out, last first. The indices were read
  off the array itself, so \<open>cls ! k\<close> is an element of the array while merging. The
  final \<open>push\<close> throws when the index is \<open>undefined\<close> (no cluster found) or when no
  cluster is left at that position.
\<close>

definition determineCollisionClusters :: "calendar \<Rightarrow> ref \<Rightarrow> error + (nat \<times> calendar)" where
  "determineCollisionClusters cal ev =
     (let cls = collision_clusters cal in
      if length (collisions (objs cal ! ev)) = 0
      then Inr (length cls, cal\<lparr>collision_clusters := cls @ [[ev]]\<rparr>)
      else
        case removeDuplicates (clusters_of cls (collisions (objs cal ! ev))) of
          [] \<Rightarrow> Inl TypeError
        | first # rest \<Rightarrow>
            (let merged = foldl (\<lambda>c k. c[first := c ! first @ c ! k]) cls rest;
                 removed = foldl splice1 merged (rev rest)
             in if first < length removed
                then Inr (first, cal\<lparr>collision_clusters :=
                                        removed[first := removed ! first @ [ev]]\<rparr>)
                else Inl TypeError))"

subsection \<open>Resizing and the placement loop\<close>

text \<open>
  \<open>resize\<close>: the width is the calendar's width divided by the column passed in, the
  left offset is that width times the event's own column less one, both in binary64.
\<close>

definition resize :: "nat \<Rightarrow> calendar \<Rightarrow> ref \<Rightarrow> calendar" where
  "resize col cal ev =
     (let w = js_div (cal_width cal) (of_nat col)
      in cal\<lparr>objs := (objs cal)[ev := (objs cal ! ev)
                 \<lparr>left := js_mul w (of_nat (column (objs cal ! ev)) - 1), width := w\<rparr>]\<rparr>)"

text \<open>
  The body of the \<open>if\<close> in \<open>calculateEventPositions\<close>: the event at position \<open>i\<close> of
  \<open>events\<close> is pushed onto the current column, spliced out of \<open>events\<close>, given its
  column, registered in a cluster, and the whole cluster is resized.
\<close>

definition place :: "nat \<Rightarrow> nat \<Rightarrow> calendar \<Rightarrow> error + calendar" where
  "place col i cal =
     (let ev = events cal ! i in
      case arr_get (events_calculated cal) (col - 1) of
        None \<Rightarrow> Inl TypeError
      | Some cell \<Rightarrow>
          (let cal1 = cal\<lparr>events_calculated := (events_calculated cal)[col - 1 := Some (cell @ [ev])],
                          events := splice1 (events cal) i,
                          objs := (objs cal)[ev := (objs cal ! ev)\<lparr>column := col\<rparr>]\<rparr>
           in case determineCollidingEvents cal1 ev of
                Inl e \<Rightarrow> Inl e
              | Inr cal2 \<Rightarrow>
                  (case determineCollisionClusters cal2 ev of
                     Inl e \<Rightarrow> Inl e
                   | Inr (new_collision_cluster_index, cal3) \<Rightarrow>
                       Inr (foldl (resize col) cal3
                              (collision_clusters cal3 ! new_collision_cluster_index)))))"

text \<open>
  The \<open>for\<close> loop over \<open>this.events\<close>. A placed event is spliced out and the index
  stays (\<open>splice(i--, 1)\<close> followed by \<open>i++\<close>); a skipped event stays and the index
  advances.
\<close>

function for_events :: "nat \<Rightarrow> nat \<Rightarrow> calendar \<Rightarrow> error + calendar" where
  "for_events col i cal =
     (if i < length (events cal) then
        (case getCollidingEvents cal (events cal ! i) col of
           Inl e \<Rightarrow> Inl e
         | Inr colliding \<Rightarrow>
             if length colliding = 0 then
               (case place col i cal of
                  Inl e \<Rightarrow> Inl e
                | Inr cal' \<Rightarrow> for_events col i cal')
             else for_events col (i + 1) cal)
      else Inr cal)"
  by pat_completeness auto

text \<open>
  The \<open>while\<close> loop of \<open>calculateEventPositions\<close>: as long as events remain, the
  column \<open>column\<close> is opened with an empty array, the remaining events are scanned
  once, and the column number is increased. In the source \<open>column\<close> starts at 1.
\<close>

function while_events :: "nat \<Rightarrow> calendar \<Rightarrow> error + calendar" where
  "while_events col cal =
     (if length (events cal) > 0 then
        (case for_events col 0
                (cal\<lparr>events_calculated := arr_set (events_calculated cal) (col - 1) []\<rparr>) of
           Inl e \<Rightarrow> Inl e
         | Inr cal' \<Rightarrow> while_events (col + 1) cal')
      else Inr cal)"
  by pat_completeness auto

definition calculateEventPositions :: "calendar \<Rightarrow> error + calendar" where
  "calculateEventPositions cal = while_events 1 cal"

text \<open>\<open>layOutDay\<close> without the painting: the calendar after the calculation.\<close>

definition layOutDay :: "interval list \<Rightarrow> error + calendar" where
  "layOutDay evs = calculateEventPositions (sortEvents (Calendar evs))"

section \<open>Program points and properties of a layout\<close>

text \<open>
  \<open>reach evs col cal\<close>: the calendar \<open>cal\<close> is a state of \<open>calculateEventPositions\<close>
  on the input \<open>evs\<close> while its column counter is \<open>col\<close>. The run starts from the
  sorted calendar with column 1; the three changes of state are opening the current
  column with an empty array, placing an event that has no collision in the current
  column, and increasing the column counter.
\<close>

inductive reach :: "interval list \<Rightarrow> nat \<Rightarrow> calendar \<Rightarrow> bool" for evs :: "interval list" where
  started: "reach evs 1 (sortEvents (Calendar evs))"
| opened: "reach evs col cal \<Longrightarrow> length (events cal) > 0 \<Longrightarrow>
     reach evs col (cal\<lparr>events_calculated := arr_set (events_calculated cal) (col - 1) []\<rparr>)"
| placed: "reach evs col cal \<Longrightarrow> i < length (events cal) \<Longrightarrow>
     getCollidingEvents cal (events cal ! i) col = Inr colliding \<Longrightarrow> length colliding = 0 \<Longrightarrow>
     place col i cal = Inr cal' \<Longrightarrow> reach evs col cal'"
| advanced: "reach evs col cal \<Longrightarrow> reach evs (col + 1) cal"

text \<open>The interval an \<open>Event\<close> object was built from.\<close>

definition raw_of :: "event \<Rightarrow> interval" where
  "raw_of e = \<lparr>start = start e, end' = end' e\<rparr>"

text \<open>
  \<open>resized col w e\<close> is the event \<open>e\<close> with the two fields \<open>resize\<close> assigns, for
  the column \<open>col\<close> and a calendar of width \<open>w\<close>.
\<close>

definition resized :: "nat \<Rightarrow> rat \<Rightarrow> event \<Rightarrow> event" where
  "resized col w e =
     e\<lparr>left := js_mul (js_div w (of_nat col)) (of_nat (column e) - 1),
       width := js_div w (of_nat col)\<rparr>"

text \<open>
  An event is sized for a calendar of width \<open>w\<close>, while the column counter is \<open>col\<close>
  and \<open>n\<close> columns are open: its column is between 1 and \<open>col\<close>, its width is \<open>w\<close>
  divided by a column number that is not below its own and not above the open columns,
  and its left offset is that width times its column less one.
\<close>

definition sized :: "rat \<Rightarrow> nat \<Rightarrow> nat \<Rightarrow> event \<Rightarrow> bool" where
  "sized w col n e \<longleftrightarrow>
     1 \<le> column e \<and> column e \<le> col \<and>
     (\<exists>c\<in>{column e..max 1 n}.
        width e = js_div w (of_nat c) \<and>
        left e = js_mul (width e) (of_nat (column e) - 1))"

definition all_sized :: "nat \<Rightarrow> calendar \<Rightarrow> bool" where
  "all_sized col cal \<longleftrightarrow>
     (\<forall>e\<in>set (objs cal). sized (cal_width cal) col (length (events_calculated cal)) e)"

text \<open>The events placed so far, column by column.\<close>

definition placed_refs :: "calendar \<Rightarrow> ref list" where
  "placed_refs cal =
     concat (map (\<lambda>cell. case cell of None \<Rightarrow> [] | Some c \<Rightarrow> c) (events_calculated cal))"

text \<open>
  Every input position is accounted for: it is still to be placed or it is in a column,
  and in one place only.
\<close>

definition all_accounted :: "nat \<Rightarrow> calendar \<Rightarrow> bool" where
  "all_accounted n cal \<longleftrightarrow> mset (events cal) + mset (placed_refs cal) = mset [0..<n]"

text \<open>No two entries of one column collide in time.\<close>

definition free_column :: "event list \<Rightarrow> ref list \<Rightarrow> bool" where
  "free_column os c \<longleftrightarrow>
     (\<forall>p<length c. \<forall>q<length c. p \<noteq> q \<longrightarrow> \<not> checkCollision (os ! (c ! p)) (os ! (c ! q)))"

definition columns_free :: "calendar \<Rightarrow> bool" where
  "columns_free cal \<longleftrightarrow>
     (\<forall>cell\<in>set (events_calculated cal).
        \<forall>c\<in>set_option cell. free_column (objs cal) c)"

subsection \<open>Inputs used as examples\<close>

definition intervals :: "(rat \<times> rat) list \<Rightarrow> interval list" where
  "intervals ps = map (\<lambda>(s, e). \<lparr>start = s, end' = e\<rparr>) ps"

text \<open>The input at the end of calendar.js, and the calendar the model computes for it.\<close>

definition scenario1 :: "interval list" where
  "scenario1 = intervals [(30, 150), (540, 600), (560, 620), (610, 670)]"

definition scenario1_layout :: calendar where
  "scenario1_layout =
     \<lparr>cal_width = 600,
      objs =
        [\<lparr>start = 30, end' = 150, left = Finite 0, width = Finite 600, collisions = [], column = 1\<rparr>,
         \<lparr>start = 540, end' = 600, left = Finite 0, width = Finite 300, collisions = [], column = 1\<rparr>,
         \<lparr>start = 560, end' = 620, left = Finite 300, width = Finite 300, collisions = [1, 3], column = 2\<rparr>,
         \<lparr>start = 610, end' = 670, left = Finite 0, width = Finite 300, collisions = [], column = 1\<rparr>],
      events = [], events_calculated = [Some [0, 1, 3], Some [2]],
      collision_clusters = [[0], [1, 3, 2]]\<rparr>"

text \<open>
  An input whose second record has \<open>start > end\<close>, and the calendar the model computes
  for it.
\<close>

definition mixed_input :: "interval list" where
  "mixed_input = intervals [(0, 10), (100, 50), (5, 20)]"

definition mixed_layout :: calendar where
  "mixed_layout =
     \<lparr>cal_width = 600,
      objs =
        [\<lparr>start = 0, end' = 10, left = Finite 0, width = Finite 300, collisions = [], column = 1\<rparr>,
         \<lparr>start = 100, end' = 50, left = Finite 0, width = Finite 600, collisions = [], column = 1\<rparr>,
         \<lparr>start = 5, end' = 20, left = Finite 300, width = Finite 300, collisions = [0], column = 2\<rparr>],
      events = [], events_calculated = [Some [0, 1], Some [2]],
      collision_clusters = [[0, 2], [1]]\<rparr>"

text \<open>Eighteen equal records: each collides with all the others.\<close>

definition eighteen_input :: "interval list" where
  "eighteen_input = replicate 18 \<lparr>start = 0, end' = 10\<rparr>"

text \<open>
  Three inputs, already in sorted order, on which the third column merges the clusters
  0, 2 and 1 in this order of discovery.
\<close>

definition stale_input :: "interval list" where
  "stale_input = intervals [(0, 3), (0, 4), (2, 10), (4, 6), (7, 12), (9, 10)]"

definition lost_input :: "interval list" where
  "lost_input =
     intervals [(2, 4), (3, 4), (3, 9), (3, 11), (4, 5), (7, 8), (7, 10), (10, 11)]"

definition fault_input :: "interval list" where
  "fault_input =
     intervals [(0, 5), (1, 5), (2, 10), (5, 7), (7, 10), (9, 10), (10, 12), (10, 15), (11, 14)]"

section \<open>The indices of the clusters to merge\<close>

text \<open>
  The indices that \<open>determineCollisionClusters\<close> merges are positions of
  \<open>collision_clusters\<close>, and merging does not change the length of that array: every
  \<open>c ! k\<close> in the merge reads an existing cluster.
\<close>

lemma set_removeDuplicates_subset: "set (removeDuplicates xs) \<subseteq> set xs"
proof -
  have "set (removeDuplicates xs) \<subseteq> fst ` set (zip xs [0..<length xs])"
    by (auto simp: removeDuplicates_def)
  also have "\<dots> \<subseteq> set xs"
    by (auto dest: set_zip_leftD)
  finally show ?thesis .
qed

lemma clusters_of_bound: "k \<in> set (clusters_of cls cs) \<Longrightarrow> k < length cls"
  by (auto simp: clusters_of_def)

lemma merge_indices_bound:
  "removeDuplicates (clusters_of cls cs) = first # rest \<Longrightarrow>
   first < length cls \<and> (\<forall>k\<in>set rest. k < length cls)"
proof -
  assume a: "removeDuplicates (clusters_of cls cs) = first # rest"
  have "set (first # rest) \<subseteq> set (clusters_of cls cs)"
    using set_removeDuplicates_subset [of "clusters_of cls cs"] by (simp only: a)
  then show ?thesis by (auto dest: clusters_of_bound)
qed

lemma length_merge_clusters:
  "length (foldl (\<lambda>c k. c[first := c ! first @ c ! k]) cls rest) = length cls"
  by (induction rest arbitrary: cls) simp_all

section \<open>Termination of the loops\<close>

lemma determineCollidingEvents_fields:
  assumes "determineCollidingEvents cal ev = Inr cal'"
  shows "events cal' = events cal" and "events_calculated cal' = events_calculated cal"
    and "collision_clusters cal' = collision_clusters cal" and "cal_width cal' = cal_width cal"
  using assms by (auto simp: determineCollidingEvents_def split: sum.splits)

lemma determineCollisionClusters_fields:
  assumes "determineCollisionClusters cal ev = Inr (k, cal')"
  shows "events cal' = events cal" and "events_calculated cal' = events_calculated cal"
    and "objs cal' = objs cal" and "cal_width cal' = cal_width cal"
  using assms
  by (auto simp: determineCollisionClusters_def Let_def split: if_splits list.splits)

lemma resize_fields:
  "events (resize c cal ev) = events cal"
  "events_calculated (resize c cal ev) = events_calculated cal"
  "collision_clusters (resize c cal ev) = collision_clusters cal"
  "cal_width (resize c cal ev) = cal_width cal"
  by (simp_all add: resize_def Let_def)

lemma foldl_resize_fields:
  "events (foldl (resize c) cal rs) = events cal"
  "events_calculated (foldl (resize c) cal rs) = events_calculated cal"
  "collision_clusters (foldl (resize c) cal rs) = collision_clusters cal"
  "cal_width (foldl (resize c) cal rs) = cal_width cal"
  by (induction rs arbitrary: cal; simp add: resize_fields)+

lemma place_events:
  "place col i cal = Inr cal' \<Longrightarrow> events cal' = splice1 (events cal) i"
  by (auto simp: place_def Let_def foldl_resize_fields determineCollidingEvents_fields
        determineCollisionClusters_fields split: option.splits sum.splits)

lemma length_splice1: "i < length xs \<Longrightarrow> length (splice1 xs i) = length xs - 1"
  by (simp add: splice1_def)

termination for_events
proof (relation "measure (\<lambda>(col, i, cal). length (events cal) - i)")
  show "wf (measure (\<lambda>(col, i, cal). length (events cal) - i))" by simp
next
  fix col i cal colliding cal'
  assume "i < length (events cal)" and "place col i cal = Inr cal'"
  then show "((col, i, cal'), (col, i, cal)) \<in> measure (\<lambda>(col, i, cal). length (events cal) - i)"
    by (simp add: place_events length_splice1)
next
  fix col i cal
  assume "i < length (events cal)"
  then show "((col, i + 1, cal), (col, i, cal)) \<in> measure (\<lambda>(col, i, cal). length (events cal) - i)"
    by simp
qed

lemma for_events_length:
  "for_events col i cal = Inr cal' \<Longrightarrow> length (events cal') \<le> length (events cal)"
proof (induction col i cal rule: for_events.induct)
  case (1 col i cal)
  show ?case
  proof (cases "i < length (events cal)")
    case False
    with "1.prems" show ?thesis by simp
  next
    case True
    then obtain colliding where g: "getCollidingEvents cal (events cal ! i) col = Inr colliding"
      using "1.prems" by (cases "getCollidingEvents cal (events cal ! i) col") simp_all
    show ?thesis
    proof (cases "length colliding = 0")
      case False
      with True g "1.prems" have "for_events col (i + 1) cal = Inr cal'" by simp
      with "1.IH"(2) True g False show ?thesis by simp
    next
      case empty: True
      then obtain cal1 where p: "place col i cal = Inr cal1"
        using True g "1.prems" by (cases "place col i cal") simp_all
      with True g empty "1.prems" have "for_events col i cal1 = Inr cal'" by simp
      with "1.IH"(1) True g empty p have "length (events cal') \<le> length (events cal1)" by simp
      also have "\<dots> \<le> length (events cal)"
        using p True by (simp add: place_events length_splice1)
      finally show ?thesis .
    qed
  qed
qed

lemma arr_get_arr_set: "arr_get (arr_set xs i v) i = Some v"
  by (simp add: arr_get_def arr_set_def nth_append)

lemma getCollidingEvents_empty:
  "0 < col \<Longrightarrow> arr_get (events_calculated cal) (col - 1) = Some [] \<Longrightarrow>
   getCollidingEvents cal ev col = Inr []"
  by (simp add: getCollidingEvents_def)

lemma for_events_first:
  assumes "events cal \<noteq> []" and "arr_get (events_calculated cal) (col - 1) = Some []"
    and "for_events col 0 cal = Inr cal'"
  shows "length (events cal') < length (events cal)"
proof -
  have pos: "0 < length (events cal)" using assms(1) by simp
  have col: "0 < col"
  proof (rule ccontr)
    assume "\<not> 0 < col"
    then have "getCollidingEvents cal (events cal ! 0) col = Inl TypeError"
      by (simp add: getCollidingEvents_def)
    with pos assms(3) show False by simp
  qed
  have g: "getCollidingEvents cal (events cal ! 0) col = Inr []"
    using col assms(2) by (rule getCollidingEvents_empty)
  then obtain cal1 where p: "place col 0 cal = Inr cal1"
    using pos assms(3) by (cases "place col 0 cal") simp_all
  with pos g assms(3) have "for_events col 0 cal1 = Inr cal'" by simp
  then have "length (events cal') \<le> length (events cal1)" by (rule for_events_length)
  also have "\<dots> < length (events cal)"
    using p pos by (simp add: place_events length_splice1)
  finally show ?thesis .
qed

termination while_events
proof (relation "measure (\<lambda>(col, cal). length (events cal))")
  show "wf (measure (\<lambda>(col, cal). length (events cal)))" by simp
next
  fix col cal cal'
  assume "0 < length (events cal)"
    and "for_events col 0 (cal\<lparr>events_calculated := arr_set (events_calculated cal) (col - 1) []\<rparr>) = Inr cal'"
  then have "length (events cal') < length (events cal)"
    using for_events_first [of "cal\<lparr>events_calculated := arr_set (events_calculated cal) (col - 1) []\<rparr>" col cal']
    by (simp add: arr_get_arr_set)
  then show "((col + 1, cal'), (col, cal)) \<in> measure (\<lambda>(col, cal). length (events cal))"
    by simp
qed

section \<open>The states of a run\<close>

lemma for_events_reach:
  "for_events col i cal = Inr cal' \<Longrightarrow> reach evs col cal \<Longrightarrow> reach evs col cal'"
proof (induction col i cal rule: for_events.induct)
  case (1 col i cal)
  show ?case
  proof (cases "i < length (events cal)")
    case False
    with "1.prems" show ?thesis by simp
  next
    case True
    then obtain colliding where g: "getCollidingEvents cal (events cal ! i) col = Inr colliding"
      using "1.prems" by (cases "getCollidingEvents cal (events cal ! i) col") simp_all
    show ?thesis
    proof (cases "length colliding = 0")
      case False
      with True g "1.prems" have "for_events col (i + 1) cal = Inr cal'" by simp
      with "1.IH"(2) True g False "1.prems"(2) show ?thesis by simp
    next
      case empty: True
      then obtain cal1 where p: "place col i cal = Inr cal1"
        using True g "1.prems" by (cases "place col i cal") simp_all
      with True g empty "1.prems" have f: "for_events col i cal1 = Inr cal'" by simp
      have "reach evs col cal1"
        using "1.prems"(2) True g empty p by (rule reach.placed)
      with "1.IH"(1) True g empty p f show ?thesis by simp
    qed
  qed
qed

lemma while_events_reach:
  "while_events col cal = Inr cal' \<Longrightarrow> reach evs col cal \<Longrightarrow> \<exists>col'. reach evs col' cal' \<and> events cal' = []"
proof (induction col cal rule: while_events.induct)
  case (1 col cal)
  show ?case
  proof (cases "length (events cal) > 0")
    case False
    with "1.prems" show ?thesis by auto
  next
    case True
    let ?o = "cal\<lparr>events_calculated := arr_set (events_calculated cal) (col - 1) []\<rparr>"
    obtain cal1 where f: "for_events col 0 ?o = Inr cal1"
      using True "1.prems" by (cases "for_events col 0 ?o") simp_all
    with True "1.prems" have w: "while_events (col + 1) cal1 = Inr cal'" by simp
    have "reach evs col ?o" using "1.prems"(2) True by (rule reach.opened)
    with f have "reach evs col cal1" by (rule for_events_reach)
    then have "reach evs (col + 1) cal1" by (rule reach.advanced)
    with "1.IH" True f w show ?thesis by simp
  qed
qed

lemma layOutDay_reach:
  "layOutDay evs = Inr cal \<Longrightarrow> \<exists>col. reach evs col cal \<and> events cal = []"
  unfolding layOutDay_def calculateEventPositions_def
  by (erule while_events_reach) (rule reach.started)

text \<open>
  From here on the recursion equations of the two loops are applied only where a proof
  names them.
\<close>

declare for_events.simps [simp del] while_events.simps [simp del]

section \<open>Invariants\<close>

lemma raw_of_update [simp]:
  "raw_of (e\<lparr>left := a\<rparr>) = raw_of e" "raw_of (e\<lparr>width := b\<rparr>) = raw_of e"
  "raw_of (e\<lparr>collisions := c\<rparr>) = raw_of e" "raw_of (e\<lparr>column := d\<rparr>) = raw_of e"
  by (simp_all add: raw_of_def)

lemma raw_of_Event [simp]: "raw_of (Event ev w) = ev"
  by (cases ev) (simp add: raw_of_def Event_def)

lemma raw_of_list_update:
  assumes "raw_of v = raw_of (xs ! k)"
  shows "raw_of (xs[k := v] ! r) = raw_of (xs ! r)"
proof (cases "k < length xs")
  case True
  then show ?thesis using assms by (cases "r = k") simp_all
next
  case False
  then show ?thesis by (simp add: list_update_beyond)
qed

lemma resize_raw: "raw_of (objs (resize c cal ev) ! r) = raw_of (objs cal ! r)"
  by (simp add: resize_def Let_def raw_of_list_update)

lemma resize_length: "length (objs (resize c cal ev)) = length (objs cal)"
  by (simp add: resize_def Let_def)

lemma foldl_resize_raw: "raw_of (objs (foldl (resize c) cal rs) ! r) = raw_of (objs cal ! r)"
  by (induction rs arbitrary: cal) (simp_all add: resize_raw)

lemma foldl_resize_length: "length (objs (foldl (resize c) cal rs)) = length (objs cal)"
  by (induction rs arbitrary: cal) (simp_all add: resize_length)

lemma determineCollidingEvents_raw:
  "determineCollidingEvents cal ev = Inr cal' \<Longrightarrow>
   raw_of (objs cal' ! r) = raw_of (objs cal ! r) \<and> length (objs cal') = length (objs cal)"
  by (auto simp: determineCollidingEvents_def raw_of_list_update split: sum.splits)

lemma place_raw:
  assumes "place col i cal = Inr cal'"
  shows "raw_of (objs cal' ! r) = raw_of (objs cal ! r)" and "length (objs cal') = length (objs cal)"
proof -
  let ?ev = "events cal ! i"
  from assms obtain cell cal2 k cal3 where
    c1: "determineCollidingEvents
           (cal\<lparr>events_calculated := (events_calculated cal)[col - 1 := Some (cell @ [?ev])],
                 events := splice1 (events cal) i,
                 objs := (objs cal)[?ev := (objs cal ! ?ev)\<lparr>column := col\<rparr>]\<rparr>) ?ev = Inr cal2"
    and c2: "determineCollisionClusters cal2 ?ev = Inr (k, cal3)"
    and c3: "cal' = foldl (resize col) cal3 (collision_clusters cal3 ! k)"
    by (auto simp: place_def Let_def split: option.splits sum.splits)
  have o3: "objs cal3 = objs cal2" using c2 by (rule determineCollisionClusters_fields)
  have a: "raw_of (objs cal2 ! r) = raw_of (objs cal ! r)"
    using determineCollidingEvents_raw [OF c1, of r] by (simp add: raw_of_list_update)
  have b: "length (objs cal2) = length (objs cal)"
    using determineCollidingEvents_raw [OF c1, of r] by simp
  show "raw_of (objs cal' ! r) = raw_of (objs cal ! r)"
    by (simp add: c3 foldl_resize_raw o3 a)
  show "length (objs cal') = length (objs cal)"
    by (simp add: c3 foldl_resize_length o3 b)
qed

lemma place_cal_width: "place col i cal = Inr cal' \<Longrightarrow> cal_width cal' = cal_width cal"
  by (auto simp: place_def Let_def foldl_resize_fields determineCollidingEvents_fields
        determineCollisionClusters_fields split: option.splits sum.splits)

lemma place_events_calculated:
  "place col i cal = Inr cal' \<Longrightarrow>
   \<exists>cell. arr_get (events_calculated cal) (col - 1) = Some cell \<and>
     events_calculated cal' = (events_calculated cal)[col - 1 := Some (cell @ [events cal ! i])]"
  by (auto simp: place_def Let_def foldl_resize_fields determineCollidingEvents_fields
        determineCollisionClusters_fields split: option.splits sum.splits)

lemma reach_raw:
  "reach evs col cal \<Longrightarrow> map raw_of (objs cal) = evs \<and> cal_width cal = 600"
proof (induction rule: reach.induct)
  case started
  show ?case by (simp add: sortEvents_def Calendar_def comp_def)
next
  case (opened col cal)
  then show ?case by simp
next
  case (placed col cal i colliding cal')
  have "map raw_of (objs cal') = map raw_of (objs cal)"
    by (rule nth_equalityI) (simp_all add: place_raw [OF placed.hyps(5)])
  with placed.IH show ?case by (simp add: place_cal_width [OF placed.hyps(5)])
next
  case (advanced col cal)
  then show ?case by simp
qed

lemma all_update:
  assumes "\<forall>e\<in>set xs. P e" and "k < length xs \<Longrightarrow> P v"
  shows "\<forall>e\<in>set (xs[k := v]). P e"
proof (cases "k < length xs")
  case True
  then show ?thesis using assms set_update_subset_insert [of xs k v] by auto
next
  case False
  then show ?thesis using assms by (simp add: list_update_beyond)
qed

lemma checkCollision_sym: "checkCollision a b = checkCollision b a"
  by (auto simp: checkCollision_def)

lemma checkCollision_raw:
  "raw_of a = raw_of a' \<Longrightarrow> raw_of b = raw_of b' \<Longrightarrow> checkCollision a b = checkCollision a' b'"
  by (simp add: raw_of_def checkCollision_def)

lemma free_column_raw:
  assumes "\<And>r. raw_of (os' ! r) = raw_of (os ! r)"
  shows "free_column os' c = free_column os c"
  unfolding free_column_def using checkCollision_raw [OF assms assms] by simp

lemma free_column_snoc:
  assumes "free_column os c" and "\<forall>x\<in>set c. \<not> checkCollision (os ! ev) (os ! x)"
  shows "free_column os (c @ [ev])"
  unfolding free_column_def
proof (intro allI impI)
  fix p q
  assume p: "p < length (c @ [ev])" and q: "q < length (c @ [ev])" and pq: "p \<noteq> q"
  show "\<not> checkCollision (os ! ((c @ [ev]) ! p)) (os ! ((c @ [ev]) ! q))"
  proof (cases "p < length c")
    case True
    show ?thesis
    proof (cases "q < length c")
      case qc: True
      with True pq assms(1) show ?thesis by (simp add: free_column_def nth_append)
    next
      case False
      with q have "q = length c" by simp
      with True assms(2) show ?thesis
        by (simp add: nth_append checkCollision_sym [of "os ! (c ! p)"])
    qed
  next
    case False
    with p have pl: "p = length c" by simp
    with q pq have "q < length c" by simp
    with pl assms(2) show ?thesis by (simp add: nth_append)
  qed
qed

lemma getCollidingEvents_none:
  assumes "getCollidingEvents cal ev col = Inr colliding" and "length colliding = 0"
    and "arr_get (events_calculated cal) (col - 1) = Some cell"
  shows "\<forall>x\<in>set cell. \<not> checkCollision (objs cal ! ev) (objs cal ! x)"
  using assms by (auto simp: getCollidingEvents_def filter_empty_conv split: if_splits)

lemma place_columns_free:
  assumes "columns_free cal" and "getCollidingEvents cal (events cal ! i) col = Inr colliding"
    and "length colliding = 0" and "place col i cal = Inr cal'"
  shows "columns_free cal'"
proof -
  let ?ev = "events cal ! i"
  from place_events_calculated [OF assms(4)] obtain cell where
    g: "arr_get (events_calculated cal) (col - 1) = Some cell"
    and ec: "events_calculated cal' = (events_calculated cal)[col - 1 := Some (cell @ [?ev])]"
    by blast
  have raw: "\<And>c. free_column (objs cal') c = free_column (objs cal) c"
    by (rule free_column_raw) (rule place_raw [OF assms(4)])
  have lt: "col - 1 < length (events_calculated cal)" and cell: "events_calculated cal ! (col - 1) = Some cell"
    using g by (simp_all add: arr_get_def split: if_splits)
  have old: "\<forall>x\<in>set (events_calculated cal).
      \<forall>c\<in>set_option x. free_column (objs cal) c"
    using assms(1) by (simp add: columns_free_def)
  have "free_column (objs cal) cell"
    using old lt cell nth_mem [OF lt] by auto
  then have new: "free_column (objs cal) (cell @ [?ev])"
    using getCollidingEvents_none [OF assms(2,3) g] by (rule free_column_snoc)
  have "\<forall>x\<in>set ((events_calculated cal)[col - 1 := Some (cell @ [?ev])]).
      \<forall>c\<in>set_option x. free_column (objs cal) c"
    using old by (rule all_update) (simp add: new)
  then show ?thesis by (simp add: columns_free_def ec raw)
qed

lemma free_column_Nil: "free_column os []"
  by (simp add: free_column_def)

lemma arr_set_columns_free:
  assumes "columns_free cal"
  shows "columns_free (cal\<lparr>events_calculated := arr_set (events_calculated cal) k []\<rparr>)"
proof (cases "k < length (events_calculated cal)")
  case True
  have "\<forall>x\<in>set ((events_calculated cal)[k := Some []]).
      \<forall>c\<in>set_option x. free_column (objs cal) c"
    using assms by (intro all_update) (simp_all add: columns_free_def free_column_Nil)
  with True show ?thesis by (simp add: columns_free_def arr_set_def)
next
  case False
  with assms show ?thesis by (auto simp: columns_free_def arr_set_def free_column_Nil)
qed

lemma reach_columns_free: "reach evs col cal \<Longrightarrow> columns_free cal"
proof (induction rule: reach.induct)
  case started
  show ?case by (simp add: columns_free_def sortEvents_def Calendar_def)
next
  case (opened col cal)
  then show ?case by (simp add: arr_set_columns_free)
next
  case (placed col cal i colliding cal')
  from placed.IH placed.hyps(3,4,5) show ?case by (rule place_columns_free)
next
  case (advanced col cal)
  then show ?case by simp
qed

section \<open>The number of columns\<close>

text \<open>
  Every pass of the \<open>while\<close> loop opens one column and places at least one event, so a
  run that returns has opened at most as many columns as there are records.
\<close>

lemma place_length_events_calculated:
  "place col i cal = Inr cal' \<Longrightarrow> length (events_calculated cal') = length (events_calculated cal)"
  using place_events_calculated [of col i cal cal'] by auto

lemma for_events_length_events_calculated:
  "for_events col i cal = Inr cal' \<Longrightarrow>
   length (events_calculated cal') = length (events_calculated cal)"
proof (induction col i cal rule: for_events.induct)
  case (1 col i cal)
  show ?case
  proof (cases "i < length (events cal)")
    case False
    with "1.prems" show ?thesis by (simp add: for_events.simps)
  next
    case True
    then obtain colliding where g: "getCollidingEvents cal (events cal ! i) col = Inr colliding"
      using "1.prems" by (cases "getCollidingEvents cal (events cal ! i) col") (simp_all add: for_events.simps)
    show ?thesis
    proof (cases "length colliding = 0")
      case False
      with True g "1.prems" have "for_events col (i + 1) cal = Inr cal'"
        by (simp add: for_events.simps [of col i])
      with "1.IH"(2) True g False show ?thesis by simp
    next
      case empty: True
      then obtain cal1 where p: "place col i cal = Inr cal1"
        using True g "1.prems" by (cases "place col i cal") (simp_all add: for_events.simps)
      with True g empty "1.prems" have "for_events col i cal1 = Inr cal'"
        by (simp add: for_events.simps [of col i cal])
      with "1.IH"(1) True g empty p
      have "length (events_calculated cal') = length (events_calculated cal1)" by simp
      with p show ?thesis by (simp add: place_length_events_calculated)
    qed
  qed
qed

lemma while_events_columns:
  "while_events col cal = Inr cal' \<Longrightarrow> length (events_calculated cal) = col - 1 \<Longrightarrow> 0 < col \<Longrightarrow>
   length (events_calculated cal') \<le> length (events_calculated cal) + length (events cal)"
proof (induction col cal rule: while_events.induct)
  case (1 col cal)
  show ?case
  proof (cases "length (events cal) > 0")
    case False
    with "1.prems" show ?thesis by (simp add: while_events.simps)
  next
    case True
    let ?o = "cal\<lparr>events_calculated := arr_set (events_calculated cal) (col - 1) []\<rparr>"
    obtain cal1 where f: "for_events col 0 ?o = Inr cal1"
      using True "1.prems" by (cases "for_events col 0 ?o") (simp_all add: while_events.simps)
    with True "1.prems" have w: "while_events (col + 1) cal1 = Inr cal'"
      by (simp add: while_events.simps [of col cal])
    have lo: "length (events_calculated ?o) = col"
      using "1.prems"(2,3) by (simp add: arr_set_def)
    have l1: "length (events_calculated cal1) = col"
      using for_events_length_events_calculated [OF f] lo by simp
    have e1: "length (events cal1) < length (events cal)"
      using for_events_first [of ?o col cal1] True f by (simp add: arr_get_arr_set)
    have "length (events_calculated cal') \<le> length (events_calculated cal1) + length (events cal1)"
      using "1.IH" [OF True f w] l1 by simp
    with l1 e1 "1.prems"(2,3) show ?thesis by simp
  qed
qed

lemma layOutDay_columns:
  "layOutDay evs = Inr cal \<Longrightarrow> length (events_calculated cal) \<le> length evs"
proof -
  have l: "length (insert_by cmp x ys) = Suc (length ys)" for cmp :: "nat \<Rightarrow> nat \<Rightarrow> int" and x ys
    by (induction ys) simp_all
  have "length (sort_by cmp xs) = length xs" for cmp :: "nat \<Rightarrow> nat \<Rightarrow> int" and xs
    by (induction xs) (simp_all add: sort_by_def l)
  then have "length (events (sortEvents (Calendar evs))) = length evs"
    by (simp add: sortEvents_def Calendar_def)
  moreover assume "layOutDay evs = Inr cal"
  ultimately show ?thesis
    using while_events_columns [of 1 "sortEvents (Calendar evs)" cal]
    by (simp add: layOutDay_def calculateEventPositions_def sortEvents_def Calendar_def)
qed

section \<open>Rounding to binary64\<close>

text \<open>
  The exponent found is not above the number, and rounding to the nearest multiple
  moves a number by at most half a unit in the last place; so in the range from
  \<open>2^(-64)\<close> to \<open>2^64\<close> the result is finite and within the relative error
  \<open>2^(-53)\<close>.
\<close>

lemma floor_log2_le: "1 \<le> n \<Longrightarrow> 2 ^ floor_log2 n \<le> n"
proof (induction n rule: floor_log2.induct)
  case (1 n)
  show ?case
  proof (cases "n < 2")
    case True
    with "1.prems" show ?thesis by (simp add: floor_log2.simps [of n])
  next
    case False
    then have "1 \<le> n div 2" by simp
    with "1.IH" False have "2 ^ floor_log2 (n div 2) \<le> n div 2" by simp
    then have "2 * 2 ^ floor_log2 (n div 2) \<le> 2 * (n div 2)" by simp
    also have "\<dots> \<le> n" by simp
    finally show ?thesis using False by (simp add: floor_log2.simps [of n])
  qed
qed

lemma floor_log2_gt: "n < 2 ^ Suc (floor_log2 n)"
proof (induction n rule: floor_log2.induct)
  case (1 n)
  show ?case
  proof (cases "n < 2")
    case True
    then show ?thesis by (simp add: floor_log2.simps [of n])
  next
    case False
    with "1.IH" have "n div 2 < 2 ^ Suc (floor_log2 (n div 2))" by simp
    then have "n div 2 + 1 \<le> 2 ^ Suc (floor_log2 (n div 2))" by simp
    then have "2 * (n div 2 + 1) \<le> 2 * 2 ^ Suc (floor_log2 (n div 2))" by simp
    moreover have "n < 2 * (n div 2 + 1)" by simp
    ultimately show ?thesis using False by (simp add: floor_log2.simps [of n])
  qed
qed

lemma le_ceil_log2: "n \<le> 2 ^ ceil_log2 n"
proof (cases "n \<le> 1")
  case True
  then show ?thesis by (simp add: ceil_log2_def)
next
  case False
  have "n - 1 < 2 ^ Suc (floor_log2 (n - 1))" by (rule floor_log2_gt)
  with False show ?thesis by (simp add: ceil_log2_def)
qed

lemma binary_exponent_le:
  assumes "0 < x"
  shows "2 powi binary_exponent x \<le> x"
proof (cases "1 \<le> x")
  case True
  then have "1 \<le> \<lfloor>x\<rfloor>" by simp
  then have "(2::int) ^ floor_log2 \<lfloor>x\<rfloor> \<le> \<lfloor>x\<rfloor>" by (rule floor_log2_le)
  then have "(of_int (2 ^ floor_log2 \<lfloor>x\<rfloor>) :: rat) \<le> of_int \<lfloor>x\<rfloor>" by (simp only: of_int_le_iff)
  also have "\<dots> \<le> x" by simp
  finally show ?thesis using True by (simp add: binary_exponent_def)
next
  case False
  let ?m = "ceil_log2 \<lceil>1 / x\<rceil>"
  have "1 / x \<le> of_int \<lceil>1 / x\<rceil>" by simp
  also have "(of_int \<lceil>1 / x\<rceil> :: rat) \<le> of_int (2 ^ ?m)"
    using le_ceil_log2 [of "\<lceil>1 / x\<rceil>"] by (simp only: of_int_le_iff)
  finally have "1 / x \<le> 2 ^ ?m" by simp
  then have "1 \<le> 2 ^ ?m * x" using assms by (simp add: field_simps)
  then have "1 / 2 ^ ?m \<le> x" by (simp add: field_simps)
  then show ?thesis using False by (simp add: binary_exponent_def power_int_minus field_simps)
qed

lemma round_half_even_error: "\<bar>of_int (round_half_even y) - y\<bar> \<le> 1 / 2"
proof -
  have "of_int \<lfloor>y\<rfloor> \<le> y" "y < of_int \<lfloor>y\<rfloor> + 1" by linarith+
  then show ?thesis by (auto simp: round_half_even_def Let_def abs_le_iff)
qed

lemma to_double_normal:
  assumes lo: "1 / 2 ^ 64 \<le> x" and hi: "x \<le> 2 ^ 64"
  shows "\<exists>r. to_double x = Finite r \<and> x * (1 - 1 / 2 ^ 53) \<le> r \<and> r \<le> x * (1 + 1 / 2 ^ 53)"
proof -
  define e where "e = max (binary_exponent x) (- 1022)"
  define u :: rat where "u = 2 powi (e - 52)"
  define m where "m = round_half_even (x / u)"
  have pos: "0 < x" using lo by (rule less_le_trans [rotated]) simp
  have "(2::rat) powi (- 1022) \<le> 2 powi (- 64)"
    by (rule power_int_increasing) simp_all
  also have "\<dots> = 1 / 2 ^ 64" by (simp add: power_int_minus field_simps)
  finally have small: "(2::rat) powi (- 1022) \<le> x" using lo by simp
  have pe: "2 powi e \<le> x"
    unfolding e_def using binary_exponent_le [OF pos] small by (simp add: max_def)
  have e_small: "e < 1023"
  proof (rule ccontr)
    assume "\<not> e < 1023"
    then have "(2::rat) powi 64 < 2 powi e"
      by (intro power_int_strict_increasing) simp_all
    with pe hi show False by simp
  qed
  have upos: "0 < u" by (simp add: u_def)
  have u52: "u * 2 ^ 52 = 2 powi e"
    by (simp add: u_def power_int_diff)
  then have ule: "u * 2 ^ 52 \<le> x" using pe by simp
  have "\<bar>of_int m - x / u\<bar> \<le> 1 / 2"
    unfolding m_def by (rule round_half_even_error)
  then have "\<bar>of_int m - x / u\<bar> * u \<le> 1 / 2 * u"
    using upos by (intro mult_right_mono) simp_all
  moreover have "\<bar>of_int m - x / u\<bar> * u = \<bar>of_int m * u - x\<bar>"
    using upos by (simp add: abs_mult_pos [symmetric] field_simps)
  ultimately have err: "\<bar>of_int m * u - x\<bar> \<le> u / 2" by simp
  have "u / 2 \<le> x / 2 ^ 53" using ule by (simp add: field_simps)
  with err have b: "\<bar>of_int m * u - x\<bar> \<le> x / 2 ^ 53" by simp
  have td: "to_double x = Finite (of_int m * u)"
    using pos e_small by (simp add: to_double_def Let_def e_def [symmetric] u_def [symmetric] m_def [symmetric])
  define d where "d = x / 2 ^ 53"
  from b have b1: "of_int m * u - x \<le> d" and b2: "x - of_int m * u \<le> d"
    unfolding d_def [symmetric] by (simp_all only: abs_le_iff minus_diff_eq)
  have eq1: "x * (1 - 1 / 2 ^ 53) = x - d" unfolding d_def by (simp only: right_diff_distrib mult_1_right times_divide_eq_right)
  have eq2: "x * (1 + 1 / 2 ^ 53) = x + d" unfolding d_def by (simp only: distrib_left mult_1_right times_divide_eq_right)
  have "x - d \<le> of_int m * u" using b2 by linarith
  moreover have "of_int m * u \<le> x + d" using b1 by linarith
  ultimately have "x * (1 - 1 / 2 ^ 53) \<le> of_int m * u" "of_int m * u \<le> x * (1 + 1 / 2 ^ 53)"
    by (simp_all only: eq1 eq2)
  with td show ?thesis by blast
qed

section \<open>Width and left offset after resizing\<close>

text \<open>
  For a column number below \<open>2^32\<close>, the bound of the length of an array, the width
  and the left offset that \<open>resize\<close> computes are finite and their sum exceeds 600 by
  the two roundings at most.
\<close>

lemma to_double_0: "to_double 0 = Finite 0"
  by (simp add: to_double_def)

lemma resize_bound:
  assumes k1: "1 \<le> k" and kc: "k \<le> c" and c32: "c < 2 ^ 32"
  shows "\<exists>w l. js_div 600 (of_nat c) = Finite w \<and>
           js_mul (Finite w) (of_nat k - 1) = Finite l \<and>
           0 \<le> l \<and> l + w \<le> 600 * (1 + 1 / 2 ^ 51)"
proof -
  define eps :: rat where "eps = 1 / 2 ^ 53"
  define x :: rat where "x = 600 / of_nat c"
  define n :: rat where "n = of_nat k"
  have eps0: "0 \<le> eps" and eps_half: "eps \<le> 1 / 2"
    and eps2: "(1 + eps) * (1 + eps) \<le> 1 + 1 / 2 ^ 51"
    by (simp_all add: eps_def)
  have cpos: "(0::rat) < of_nat c" using k1 kc by simp
  have "of_nat c < (of_nat (2 ^ 32) :: rat)" using c32 by (simp only: of_nat_less_iff)
  then have cle: "(of_nat c :: rat) \<le> 2 ^ 32" by simp
  have n1: "1 \<le> n" using k1 by (simp add: n_def)
  have "n \<le> of_nat c" using kc by (simp add: n_def)
  with cle have n32: "n \<le> 2 ^ 32" by simp
  have xpos: "0 < x" using cpos by (simp add: x_def)
  have xhi: "x \<le> 600"
  proof -
    have "(1::rat) \<le> of_nat c" using k1 kc by simp
    then show ?thesis using cpos by (simp add: x_def field_simps)
  qed
  have xlo: "600 / 2 ^ 32 \<le> x"
    unfolding x_def using cpos cle by (intro divide_left_mono) simp_all
  have xn: "x * n \<le> 600"
  proof -
    have "x * n = 600 * (n / of_nat c)" by (simp add: x_def)
    also have "\<dots> \<le> 600 * 1"
      using \<open>n \<le> of_nat c\<close> cpos by (intro mult_left_mono) simp_all
    finally show ?thesis by simp
  qed
  have "1 / 2 ^ 64 \<le> x" using xlo by simp
  moreover have "x \<le> 2 ^ 64" using xhi by simp
  ultimately obtain w where w: "to_double x = Finite w"
    and wlo: "x * (1 - eps) \<le> w" and whi: "w \<le> x * (1 + eps)"
    unfolding eps_def using to_double_normal [of x] by blast
  have dv: "js_div 600 (of_nat c) = Finite w"
    using cpos w by (simp add: js_div_def x_def)
  have "x * (1 / 2) \<le> x * (1 - eps)"
    using xpos eps_half by (intro mult_left_mono) simp_all
  with wlo have whalf: "x / 2 \<le> w" by simp
  with xpos have wpos: "0 < w" by simp
  have wx: "w \<le> 600 * (1 + eps)"
  proof -
    have "x * (1 + eps) \<le> 600 * (1 + eps)"
      using xhi eps0 by (intro mult_right_mono) simp_all
    with whi show ?thesis by simp
  qed
  have final: "600 * ((1 + eps) * (1 + eps)) \<le> 600 * (1 + 1 / 2 ^ 51)"
    using eps2 by (intro mult_left_mono) simp_all
  show ?thesis
  proof (cases "k = 1")
    case True
    then have "js_mul (Finite w) (of_nat k - 1) = Finite 0" by (simp add: to_double_0)
    moreover have "0 + w \<le> 600 * (1 + 1 / 2 ^ 51)"
    proof -
      have "600 * (1 + eps) \<le> 600 * ((1 + eps) * (1 + eps))"
        using eps0 by (simp add: algebra_simps)
      with wx final show ?thesis by simp
    qed
    ultimately show ?thesis using dv by auto
  next
    case False
    with k1 have "2 \<le> k" by simp
    then have "(of_nat 2 :: rat) \<le> of_nat k" by (simp only: of_nat_le_iff)
    then have n2: "1 \<le> n - 1" by (simp add: n_def)
    define y where "y = w * (n - 1)"
    have "w * 1 \<le> w * (n - 1)" using wpos n2 by (intro mult_left_mono) simp_all
    then have wy: "w \<le> y" by (simp add: y_def)
    have "600 / 2 ^ 32 / 2 \<le> x / 2" using xlo by simp
    with whalf wy have "1 / 2 ^ 64 \<le> y" by simp
    moreover have "y \<le> 2 ^ 64"
    proof -
      have "w * (n - 1) \<le> (600 * (1 + eps)) * 2 ^ 32"
        using wx n32 n2 wpos by (intro mult_mono) simp_all
      also have "\<dots> \<le> 2 ^ 64" by (simp add: eps_def)
      finally show ?thesis by (simp add: y_def)
    qed
    ultimately obtain l where l: "to_double y = Finite l"
      and llo: "y * (1 - eps) \<le> l" and lhi: "l \<le> y * (1 + eps)"
      unfolding eps_def using to_double_normal [of y] by blast
    have ypos: "0 \<le> y" using wy wpos by simp
    have "0 \<le> y * (1 - eps)" using ypos eps_half by (intro mult_nonneg_nonneg) simp_all
    with llo have l0: "0 \<le> l" by simp
    have ml: "js_mul (Finite w) (of_nat k - 1) = Finite l"
      using l by (simp add: y_def n_def)
    have "l + w \<le> y * (1 + eps) + w" using lhi by simp
    also have "\<dots> \<le> y * (1 + eps) + w * (1 + eps)"
    proof -
      have "w * 1 \<le> w * (1 + eps)" using wpos eps0 by (intro mult_left_mono) simp_all
      then show ?thesis by simp
    qed
    also have "\<dots> = (w * n) * (1 + eps)" by (simp add: y_def algebra_simps)
    also have "\<dots> \<le> ((x * (1 + eps)) * n) * (1 + eps)"
      using whi n1 eps0 by (intro mult_right_mono) simp_all
    also have "\<dots> = (x * n) * ((1 + eps) * (1 + eps))" by (simp add: algebra_simps)
    also have "\<dots> \<le> 600 * ((1 + eps) * (1 + eps))"
      using xn eps0 by (intro mult_right_mono) simp_all
    also note final
    finally have "l + w \<le> 600 * (1 + 1 / 2 ^ 51)" .
    with dv ml l0 show ?thesis by blast
  qed
qed

lemma to_double_600: "to_double 600 = Finite 600"
  by code_simp

lemma resize_objs:
  "objs (resize col cal ev) = (objs cal)[ev := resized col (cal_width cal) (objs cal ! ev)]"
  by (simp add: resize_def resized_def Let_def)

lemma resized_resized: "resized col w (resized col w e) = resized col w e"
  by (simp add: resized_def)

lemma foldl_resize_nth:
  "r < length (objs cal) \<Longrightarrow>
   objs (foldl (resize col) cal rs) ! r =
     (if r \<in> set rs then resized col (cal_width cal) (objs cal ! r) else objs cal ! r)"
proof (induction rs arbitrary: cal)
  case Nil
  show ?case by simp
next
  case (Cons a rs)
  let ?c = "resize col cal a"
  have len: "r < length (objs ?c)" using Cons.prems by (simp add: resize_length)
  have w: "cal_width ?c = cal_width cal" by (simp add: resize_fields)
  have at: "objs ?c ! r = (if r = a then resized col (cal_width cal) (objs cal ! r) else objs cal ! r)"
    using Cons.prems by (simp add: resize_objs)
  have "objs (foldl (resize col) cal (a # rs)) ! r =
      (if r \<in> set rs then resized col (cal_width cal) (objs ?c ! r) else objs ?c ! r)"
    using Cons.IH [OF len] by (simp add: w)
  also have "\<dots> =
      (if r \<in> set (a # rs) then resized col (cal_width cal) (objs cal ! r) else objs cal ! r)"
    by (simp only: at) (simp add: resized_resized)
  finally show ?case .
qed

lemma sized_resized:
  "1 \<le> column e \<Longrightarrow> column e \<le> col \<Longrightarrow> col \<le> max 1 n \<Longrightarrow> sized w col n (resized col w e)"
  by (auto simp: sized_def resized_def)

lemma sized_mono:
  assumes "sized w col n e" and "col \<le> col'" and "n \<le> n'"
  shows "sized w col' n' e"
proof -
  from assms(1) obtain c where c: "c \<in> {column e..max 1 n}"
    and wl: "width e = js_div w (of_nat c) \<and> left e = js_mul (width e) (of_nat (column e) - 1)"
    and b: "1 \<le> column e" "column e \<le> col"
    unfolding sized_def by blast
  from c assms(3) have "c \<in> {column e..max 1 n'}" by auto
  with wl b assms(2) show ?thesis unfolding sized_def by auto
qed

lemma determineCollisionClusters_member:
  "determineCollisionClusters cal ev = Inr (k, cal') \<Longrightarrow> ev \<in> set (collision_clusters cal' ! k)"
  by (auto simp: determineCollisionClusters_def Let_def split: if_splits list.splits)

lemma place_all_sized:
  assumes p: "place col i cal = Inr cal'" and inv: "all_sized col cal" and col: "0 < col"
  shows "all_sized col cal'"
proof -
  let ?ev = "events cal ! i"
  let ?n = "length (events_calculated cal)"
  let ?w = "cal_width cal"
  let ?cal1 = "\<lambda>cell. cal\<lparr>events_calculated := (events_calculated cal)[col - 1 := Some (cell @ [?ev])],
                 events := splice1 (events cal) i,
                 objs := (objs cal)[?ev := (objs cal ! ?ev)\<lparr>column := col\<rparr>]\<rparr>"
  from p obtain cell cal2 k cal3 where
    g: "arr_get (events_calculated cal) (col - 1) = Some cell"
    and c1: "determineCollidingEvents (?cal1 cell) ?ev = Inr cal2"
    and c2: "determineCollisionClusters cal2 ?ev = Inr (k, cal3)"
    and c3: "cal' = foldl (resize col) cal3 (collision_clusters cal3 ! k)"
    by (auto simp: place_def Let_def split: option.splits sum.splits)
  let ?rs = "collision_clusters cal3 ! k"
  have mem: "?ev \<in> set ?rs" using c2 by (rule determineCollisionClusters_member)
  have "col - 1 < ?n" using g by (simp add: arr_get_def split: if_splits)
  with col have coln: "col \<le> max 1 ?n" by simp
  have n': "length (events_calculated cal') = ?n"
    using p by (rule place_length_events_calculated)
  have w': "cal_width cal' = ?w" using p by (rule place_cal_width)
  have w3: "cal_width cal3 = ?w"
    using determineCollisionClusters_fields(4) [OF c2] determineCollidingEvents_fields(4) [OF c1]
    by simp
  from c1 obtain cs where o2: "objs cal2 =
      ((objs cal)[?ev := (objs cal ! ?ev)\<lparr>column := col\<rparr>])
        [?ev := ((objs cal)[?ev := (objs cal ! ?ev)\<lparr>column := col\<rparr>] ! ?ev)\<lparr>collisions := cs\<rparr>]"
    by (auto simp: determineCollidingEvents_def split: sum.splits)
  have o3: "objs cal3 = objs cal2" using c2 by (rule determineCollisionClusters_fields)
  have len3: "length (objs cal3) = length (objs cal)" by (simp add: o3 o2)
  have len': "length (objs cal') = length (objs cal)" by (simp add: c3 foldl_resize_length len3)
  have old: "\<And>r. r < length (objs cal) \<Longrightarrow> sized ?w col ?n (objs cal ! r)"
    using inv by (simp add: all_sized_def)
  have "sized ?w col ?n (objs cal' ! r)" if r: "r < length (objs cal)" for r
  proof -
    have e3: "objs cal3 ! r =
        (if r = ?ev then (objs cal ! r)\<lparr>column := col, collisions := cs\<rparr> else objs cal ! r)"
      using r by (simp add: o3 o2)
    have at: "objs cal' ! r =
        (if r \<in> set ?rs then resized col ?w (objs cal3 ! r) else objs cal3 ! r)"
      using r by (simp add: c3 foldl_resize_nth len3 w3)
    show ?thesis
    proof (cases "r \<in> set ?rs")
      case True
      have "1 \<le> column (objs cal3 ! r) \<and> column (objs cal3 ! r) \<le> col"
        using old [OF r] col by (simp add: e3 sized_def)
      then show ?thesis using True coln by (simp add: at sized_resized)
    next
      case False
      with mem have "r \<noteq> ?ev" by auto
      with False show ?thesis using old [OF r] by (simp add: at e3)
    qed
  qed
  then show ?thesis by (simp add: all_sized_def all_set_conv_all_nth len' n' w')
qed

lemma length_arr_set: "length xs \<le> length (arr_set xs i v)"
  by (simp add: arr_set_def)

lemma reach_all_sized: "reach evs col cal \<Longrightarrow> 0 < col \<and> all_sized col cal"
proof (induction rule: reach.induct)
  case started
  show ?case
    by (simp add: all_sized_def sized_def sortEvents_def Calendar_def Event_def js_div_def
        to_double_600 to_double_0)
next
  case (opened col cal)
  then show ?case
    by (auto simp: all_sized_def intro: sized_mono length_arr_set)
next
  case (placed col cal i colliding cal')
  then show ?case using place_all_sized [OF placed.hyps(5)] by simp
next
  case (advanced col cal)
  then show ?case by (auto simp: all_sized_def intro: sized_mono)
qed

section \<open>Every record is placed\<close>

lemma mset_splice1: "i < length xs \<Longrightarrow> add_mset (xs ! i) (mset (splice1 xs i)) = mset xs"
proof -
  assume "i < length xs"
  then have "xs = take i xs @ xs ! i # drop (Suc i) xs" by (rule id_take_nth_drop)
  then have "mset xs = mset (take i xs @ xs ! i # drop (Suc i) xs)" by simp
  then show ?thesis by (simp add: splice1_def)
qed

lemma mset_concat_update:
  assumes "k < length xs" and "f (xs ! k) @ [x] = f y"
  shows "mset (concat (map f (xs[k := y]))) = add_mset x (mset (concat (map f xs)))"
proof -
  have a: "xs = take k xs @ xs ! k # drop (Suc k) xs" using assms(1) by (rule id_take_nth_drop)
  have b: "xs[k := y] = take k xs @ y # drop (Suc k) xs" using assms(1) by (rule upd_conv_take_nth_drop)
  have "mset (concat (map f (xs[k := y]))) =
      mset (concat (map f (take k xs))) + mset (f y) + mset (concat (map f (drop (Suc k) xs)))"
    by (simp only: b) simp
  also have "mset (f y) = add_mset x (mset (f (xs ! k)))"
    using assms(2) [symmetric] by simp
  finally have "mset (concat (map f (xs[k := y]))) =
      add_mset x (mset (concat (map f (take k xs))) + mset (f (xs ! k)) +
        mset (concat (map f (drop (Suc k) xs))))"
    by simp
  also have "mset (concat (map f (take k xs))) + mset (f (xs ! k)) +
        mset (concat (map f (drop (Suc k) xs))) = mset (concat (map f (take k xs @ xs ! k # drop (Suc k) xs)))"
    by simp
  also have "\<dots> = mset (concat (map f xs))" using a by simp
  finally show ?thesis .
qed

lemma place_all_accounted:
  assumes "place col i cal = Inr cal'" and "i < length (events cal)" and "all_accounted n cal"
  shows "all_accounted n cal'"
proof -
  from place_events_calculated [OF assms(1)] obtain cell where
    g: "arr_get (events_calculated cal) (col - 1) = Some cell"
    and ec: "events_calculated cal' = (events_calculated cal)[col - 1 := Some (cell @ [events cal ! i])]"
    by blast
  have lt: "col - 1 < length (events_calculated cal)"
    and cell: "events_calculated cal ! (col - 1) = Some cell"
    using g by (simp_all add: arr_get_def split: if_splits)
  have "mset (placed_refs cal') = add_mset (events cal ! i) (mset (placed_refs cal))"
    unfolding placed_refs_def ec using lt by (rule mset_concat_update) (simp only: cell option.case)
  moreover have "events cal' = splice1 (events cal) i" using assms(1) by (rule place_events)
  ultimately have "mset (events cal') + mset (placed_refs cal') =
      add_mset (events cal ! i) (mset (splice1 (events cal) i)) + mset (placed_refs cal)"
    by simp
  then show ?thesis using assms(2,3) by (simp add: all_accounted_def mset_splice1)
qed

lemma for_events_all_accounted:
  "for_events col i cal = Inr cal' \<Longrightarrow> all_accounted n cal \<Longrightarrow> all_accounted n cal'"
proof (induction col i cal rule: for_events.induct)
  case (1 col i cal)
  show ?case
  proof (cases "i < length (events cal)")
    case False
    with "1.prems" show ?thesis by (simp add: for_events.simps)
  next
    case True
    then obtain colliding where g: "getCollidingEvents cal (events cal ! i) col = Inr colliding"
      using "1.prems" by (cases "getCollidingEvents cal (events cal ! i) col") (simp_all add: for_events.simps)
    show ?thesis
    proof (cases "length colliding = 0")
      case False
      with True g "1.prems" have "for_events col (i + 1) cal = Inr cal'"
        by (simp add: for_events.simps [of col i])
      with "1.IH"(2) True g False "1.prems"(2) show ?thesis by simp
    next
      case empty: True
      then obtain cal1 where p: "place col i cal = Inr cal1"
        using True g "1.prems" by (cases "place col i cal") (simp_all add: for_events.simps)
      with True g empty "1.prems" have f: "for_events col i cal1 = Inr cal'"
        by (simp add: for_events.simps [of col i cal])
      have "all_accounted n cal1" using p True "1.prems"(2) by (rule place_all_accounted)
      with "1.IH"(1) True g empty p f show ?thesis by simp
    qed
  qed
qed

lemma while_events_all_accounted:
  "while_events col cal = Inr cal' \<Longrightarrow> length (events_calculated cal) = col - 1 \<Longrightarrow> 0 < col \<Longrightarrow>
   all_accounted n cal \<Longrightarrow> all_accounted n cal'"
proof (induction col cal rule: while_events.induct)
  case (1 col cal)
  show ?case
  proof (cases "length (events cal) > 0")
    case False
    with "1.prems" show ?thesis by (simp add: while_events.simps)
  next
    case True
    let ?o = "cal\<lparr>events_calculated := arr_set (events_calculated cal) (col - 1) []\<rparr>"
    obtain cal1 where f: "for_events col 0 ?o = Inr cal1"
      using True "1.prems" by (cases "for_events col 0 ?o") (simp_all add: while_events.simps)
    with True "1.prems" have w: "while_events (col + 1) cal1 = Inr cal'"
      by (simp add: while_events.simps [of col cal])
    have o: "arr_set (events_calculated cal) (col - 1) [] = events_calculated cal @ [Some []]"
      using "1.prems"(2) by (simp add: arr_set_def)
    have "all_accounted n ?o"
      using "1.prems"(4) o by (simp add: all_accounted_def placed_refs_def)
    with f have a1: "all_accounted n cal1" by (rule for_events_all_accounted)
    have l1: "length (events_calculated cal1) = col + 1 - 1"
      using for_events_length_events_calculated [OF f] "1.prems"(2,3) o by simp
    show ?thesis using "1.IH" [OF True f w l1 _ a1] by simp
  qed
qed

lemma mset_insert_by: "mset (insert_by cmp x ys) = add_mset x (mset ys)"
  by (induction ys) simp_all

lemma mset_sort_by: "mset (sort_by cmp xs) = mset xs"
  by (induction xs) (simp_all add: sort_by_def mset_insert_by)

lemma layOutDay_all_accounted:
  assumes "layOutDay evs = Inr cal"
  shows "mset (placed_refs cal) = mset [0..<length evs]"
proof -
  let ?c = "sortEvents (Calendar evs)"
  have "all_accounted (length evs) ?c"
    by (simp add: all_accounted_def sortEvents_def Calendar_def placed_refs_def mset_sort_by)
  moreover have "length (events_calculated ?c) = 1 - 1" by (simp add: sortEvents_def Calendar_def)
  ultimately have "all_accounted (length evs) cal"
    using while_events_all_accounted [of 1 ?c cal "length evs"] assms
    by (simp add: layOutDay_def calculateEventPositions_def)
  moreover have "events cal = []" using layOutDay_reach [OF assms] by blast
  ultimately show ?thesis by (simp add: all_accounted_def)
qed

section \<open>The claims\<close>

lemma scenario1_run: "layOutDay scenario1 = Inr scenario1_layout"
  by code_simp

text \<open>
  C3. For intervals with \<open>start < end\<close>, \<open>checkCollision\<close> is true exactly when
  \<open>a.start < b.end\<close> and \<open>b.start < a.end\<close>; it is symmetric, and intervals that only
  touch (\<open>a.end = b.start\<close>) do not collide.
\<close>

theorem checkCollision_overlap:
  "start a < end' a \<Longrightarrow> start b < end' b \<Longrightarrow>
   (checkCollision a b \<longleftrightarrow> start a < end' b \<and> start b < end' a) \<and>
   checkCollision a b = checkCollision b a \<and>
   (end' a = start b \<longrightarrow> \<not> checkCollision a b)"
  by (auto simp: checkCollision_def)

theorem checkCollision_overlap_witness:
  "start (Event \<lparr>start = 0, end' = 60\<rparr> 600) < end' (Event \<lparr>start = 0, end' = 60\<rparr> 600) \<and>
   start (Event \<lparr>start = 60, end' = 120\<rparr> 600) < end' (Event \<lparr>start = 60, end' = 120\<rparr> 600) \<and>
   end' (Event \<lparr>start = 0, end' = 60\<rparr> 600) = start (Event \<lparr>start = 60, end' = 120\<rparr> 600) \<and>
   \<not> checkCollision (Event \<lparr>start = 0, end' = 60\<rparr> 600) (Event \<lparr>start = 60, end' = 120\<rparr> 600)"
  using checkCollision_overlap
    [of "Event \<lparr>start = 0, end' = 60\<rparr> 600" "Event \<lparr>start = 60, end' = 120\<rparr> 600"]
  by (simp add: Event_def)

text \<open>
  C6. The loops of \<open>calculateEventPositions\<close> terminate: both are total functions, by
  the termination proofs above. As long as events remain, the first remaining event
  finds the freshly opened column empty, and a pass over the column that completes
  leaves strictly fewer events unplaced.
\<close>

theorem column_pass_shrinks:
  "events cal \<noteq> [] \<Longrightarrow> 0 < col \<Longrightarrow>
   getCollidingEvents (cal\<lparr>events_calculated := arr_set (events_calculated cal) (col - 1) []\<rparr>)
     (events cal ! 0) col = Inr [] \<and>
   (\<forall>cal'. for_events col 0
             (cal\<lparr>events_calculated := arr_set (events_calculated cal) (col - 1) []\<rparr>) = Inr cal'
           \<longrightarrow> length (events cal') < length (events cal))"
  using for_events_first
    [of "cal\<lparr>events_calculated := arr_set (events_calculated cal) (col - 1) []\<rparr>" col]
  by (simp add: getCollidingEvents_empty arr_get_arr_set)

theorem column_pass_shrinks_witness:
  "events (sortEvents (Calendar scenario1)) \<noteq> [] \<and> (0::nat) < 1 \<and>
   (case for_events 1 0 ((sortEvents (Calendar scenario1))\<lparr>events_calculated := [Some []]\<rparr>) of
      Inl e \<Rightarrow> False
    | Inr cal' \<Rightarrow> events cal' = [2] \<and>
        length (events cal') < length (events (sortEvents (Calendar scenario1))))"
proof -
  let ?c = "sortEvents (Calendar scenario1)"
  have ne: "events ?c \<noteq> []" by code_simp
  have ec: "arr_set (events_calculated ?c) (1 - 1) [] = [Some []]" by code_simp
  have "case for_events 1 0 (?c\<lparr>events_calculated := [Some []]\<rparr>) of
          Inl e \<Rightarrow> False | Inr cal' \<Rightarrow> events cal' = [2]"
    by code_simp
  then obtain cal' where f: "for_events 1 0 (?c\<lparr>events_calculated := [Some []]\<rparr>) = Inr cal'"
    and e: "events cal' = [2]" by (auto split: sum.splits)
  have "length (events cal') < length (events ?c)"
    using column_pass_shrinks [OF ne, of 1] f ec by simp
  with ne f e show ?thesis by simp
qed

text \<open>
  C2 says that every event of the final layout has \<open>0 \<le> left\<close> and
  \<open>left + width \<le> 600\<close>. On eighteen equal records the event of column 18 has the
  width \<open>600 / 18\<close> and the left offset \<open>width * 17\<close>, both rounded; JavaScript
  evaluates their sum to \<open>600 + 2^(-43)\<close>, and the exact sum of the two doubles is
  above 600 as well.
\<close>

theorem rounding_exceeds_width_counterexample:
  "(case layOutDay eighteen_input of
      Inl e \<Rightarrow> False
    | Inr cal \<Rightarrow>
        column (objs cal ! 17) = 18 \<and>
        width (objs cal ! 17) = Finite (4691249611844267 / 140737488355328) \<and>
        left (objs cal ! 17) = Finite (2492226356292267 / 4398046511104) \<and>
        js_add (left (objs cal ! 17)) (width (objs cal ! 17)) = Finite (600 + 1 / 2 ^ 43) \<and>
        \<not> js_le (js_add (left (objs cal ! 17)) (width (objs cal ! 17))) (Finite (cal_width cal)) \<and>
        (600 :: rat) < 2492226356292267 / 4398046511104 + 4691249611844267 / 140737488355328)"
  by code_simp

text \<open>
  C2, as amended. For an input of fewer than \<open>2^32\<close> records, the bound of the length
  of an array, every event of the calendar a run returns has a finite \<open>left\<close> and
  \<open>width\<close> with \<open>0 \<le> left\<close> and \<open>left + width \<le> 600 * (1 + 2^(-51))\<close>, the sum
  being the exact one: the range exceeds the width of the calendar by the rounding of
  the quotient and of the product at most. There is one event per record and none is
  left unplaced.
\<close>

theorem layout_contained_up_to_rounding:
  "layOutDay evs = Inr cal \<Longrightarrow> length evs < 2 ^ 32 \<Longrightarrow>
   cal_width cal = 600 \<and> events cal = [] \<and> length (objs cal) = length evs \<and>
   (\<forall>e\<in>set (objs cal). \<exists>l w. left e = Finite l \<and> width e = Finite w \<and>
      0 \<le> l \<and> l + w \<le> 600 * (1 + 1 / 2 ^ 51))"
proof -
  assume run: "layOutDay evs = Inr cal" and len: "length evs < 2 ^ 32"
  then obtain col where r: "reach evs col cal" and e: "events cal = []"
    using layOutDay_reach by blast
  have m: "map raw_of (objs cal) = evs" and w: "cal_width cal = 600"
    using reach_raw [OF r] by simp_all
  have "length (map raw_of (objs cal)) = length evs" by (simp only: m)
  then have lo: "length (objs cal) = length evs" by simp
  have n: "max 1 (length (events_calculated cal)) < 2 ^ 32"
    using layOutDay_columns [OF run] len by simp
  have "\<exists>l w. left e = Finite l \<and> width e = Finite w \<and> 0 \<le> l \<and> l + w \<le> 600 * (1 + 1 / 2 ^ 51)"
    if "e \<in> set (objs cal)" for e
  proof -
    from that reach_all_sized [OF r]
    have "sized 600 col (length (events_calculated cal)) e"
      by (simp add: all_sized_def w)
    then obtain c where k: "1 \<le> column e" and c: "column e \<le> c"
      and cn: "c \<le> max 1 (length (events_calculated cal))"
      and wd: "width e = js_div 600 (of_nat c)"
      and lf: "left e = js_mul (width e) (of_nat (column e) - 1)"
      unfolding sized_def by auto
    from cn n have "c < 2 ^ 32" by simp
    from resize_bound [OF k c this] wd lf show ?thesis by auto
  qed
  with w e lo show ?thesis by blast
qed

theorem layout_contained_up_to_rounding_witness:
  "layOutDay scenario1 = Inr scenario1_layout \<and> length scenario1 < 2 ^ 32 \<and>
   length (objs scenario1_layout) = length scenario1 \<and>
   left (objs scenario1_layout ! 2) = Finite 300 \<and>
   width (objs scenario1_layout ! 2) = Finite 300 \<and>
   (300::rat) + 300 \<le> 600 * (1 + 1 / 2 ^ 51)"
proof -
  have len: "length scenario1 < 2 ^ 32" by (simp add: scenario1_def intervals_def)
  have m: "objs scenario1_layout ! 2 \<in> set (objs scenario1_layout)"
    by (simp add: scenario1_layout_def)
  have l: "left (objs scenario1_layout ! 2) = Finite 300"
    and w: "width (objs scenario1_layout ! 2) = Finite 300"
    by (simp_all add: scenario1_layout_def)
  from layout_contained_up_to_rounding [OF scenario1_run len]
  have n: "length (objs scenario1_layout) = length scenario1"
    and b: "\<forall>e\<in>set (objs scenario1_layout). \<exists>l w. left e = Finite l \<and> width e = Finite w \<and>
      0 \<le> l \<and> l + w \<le> 600 * (1 + 1 / 2 ^ 51)"
    by blast+
  from b m have "\<exists>l' w'. left (objs scenario1_layout ! 2) = Finite l' \<and>
      width (objs scenario1_layout ! 2) = Finite w' \<and> 0 \<le> l' \<and> l' + w' \<le> 600 * (1 + 1 / 2 ^ 51)"
    by (rule bspec)
  then have "(300::rat) + 300 \<le> 600 * (1 + 1 / 2 ^ 51)"
    unfolding l w by auto
  with scenario1_run len n l w show ?thesis by blast
qed

text \<open>
  C7. A run is a function of the input records, and it leaves the times of every record
  as they were: running the layout again on the records of the calendar it returned
  gives the same calendar, with the same column, left and width for each record.
\<close>

theorem layout_repeatable:
  "layOutDay evs = Inr cal \<Longrightarrow> layOutDay (map raw_of (objs cal)) = Inr cal"
proof -
  assume l: "layOutDay evs = Inr cal"
  then obtain col where "reach evs col cal" using layOutDay_reach by blast
  then have "map raw_of (objs cal) = evs" by (simp add: reach_raw)
  with l show ?thesis by simp
qed

theorem layout_repeatable_witness:
  "layOutDay scenario1 = Inr scenario1_layout \<and>
   layOutDay (map raw_of (objs scenario1_layout)) = Inr scenario1_layout"
  using layout_repeatable [OF scenario1_run] scenario1_run by simp

text \<open>
  C10. In every state of a run, no two entries of one column of \<open>events_calculated\<close>
  collide in time.
\<close>

theorem same_column_never_collides:
  "reach evs col cal \<Longrightarrow> columns_free cal"
  by (rule reach_columns_free)

theorem same_column_never_collides_witness:
  "events_calculated scenario1_layout = [Some [0, 1, 3], Some [2]] \<and>
   (\<exists>col. reach scenario1 col scenario1_layout) \<and> columns_free scenario1_layout"
proof -
  obtain col where r: "reach scenario1 col scenario1_layout"
    using layOutDay_reach [OF scenario1_run] by blast
  then have "columns_free scenario1_layout" by (rule same_column_never_collides)
  with r show ?thesis by (auto simp: scenario1_layout_def)
qed

text \<open>
  C8 says that an input with a malformed record (\<open>start \<ge> end\<close>) is rejected and
  nothing is placed. The code validates nothing: the record \<open>{start: 100, end: 50}\<close>
  is placed in column 1 with the full width.
\<close>

theorem malformed_record_counterexample:
  "layOutDay [\<lparr>start = 100, end' = 50\<rparr>] =
     Inr \<lparr>cal_width = 600,
          objs = [\<lparr>start = 100, end' = 50, left = Finite 0, width = Finite 600,
                   collisions = [], column = 1\<rparr>],
          events = [], events_calculated = [Some [0]], collision_clusters = [[0]]\<rparr>"
  by code_simp

text \<open>
  C8, as amended. No input is rejected for a malformed record: for every input,
  whatever \<open>start\<close> and \<open>end\<close> of its records, a run that returns holds an event for
  every record, with \<open>start\<close> and \<open>end\<close> as given, has left no record unplaced, and
  has placed every record in exactly one column.
\<close>

theorem every_record_placed:
  "layOutDay evs = Inr cal \<Longrightarrow>
   events cal = [] \<and> map raw_of (objs cal) = evs \<and>
   mset (placed_refs cal) = mset [0..<length evs]"
proof -
  assume run: "layOutDay evs = Inr cal"
  then obtain col where r: "reach evs col cal" and e: "events cal = []"
    using layOutDay_reach by blast
  have "map raw_of (objs cal) = evs" using reach_raw [OF r] by simp
  with e layOutDay_all_accounted [OF run] show ?thesis by simp
qed

theorem every_record_placed_witness:
  "layOutDay mixed_input = Inr mixed_layout \<and>
   \<not> start (mixed_input ! 1) < end' (mixed_input ! 1) \<and>
   events mixed_layout = [] \<and> map raw_of (objs mixed_layout) = mixed_input \<and>
   placed_refs mixed_layout = [0, 1, 2] \<and>
   mset (placed_refs mixed_layout) = mset [0..<length mixed_input]"
proof -
  have run: "layOutDay mixed_input = Inr mixed_layout" by code_simp
  have m: "\<not> start (mixed_input ! 1) < end' (mixed_input ! 1)"
    by (simp add: mixed_input_def intervals_def)
  have p: "placed_refs mixed_layout = [0, 1, 2]"
    by (simp add: placed_refs_def mixed_layout_def)
  from every_record_placed [OF run] run m p show ?thesis by simp
qed

text \<open>A run on a single record returns, whatever its \<open>start\<close> and \<open>end\<close>.\<close>

lemma single_record_placed:
  "layOutDay [ev] =
     Inr \<lparr>cal_width = 600,
          objs = [\<lparr>start = start ev, end' = end' ev, left = Finite 0, width = Finite 600,
                   collisions = [], column = 1\<rparr>],
          events = [], events_calculated = [Some [0]], collision_clusters = [[0]]\<rparr>"
  by (simp add: layOutDay_def calculateEventPositions_def Calendar_def sortEvents_def sort_by_def
      Event_def arr_set_def arr_get_def getCollidingEvents_def place_def splice1_def
      determineCollidingEvents_def determineCollisionClusters_def removeDuplicates_def resize_def
      js_div_def to_double_600 to_double_0 while_events.simps for_events.simps)




text \<open>
  C5 says that the clusters are pairwise disjoint and are the connected components of
  the collision graph of the placed events. On \<open>stale_input\<close> the event \<open>[2, 10)\<close> is placed in column 3 and collides with
  members of the clusters 0, 2 and 1, found in this order. The clusters 2 and 1 are
  appended to cluster 0; then position 1 is spliced out and position 2, which no
  longer exists, is not. The former cluster 2 stays in the array: the events
  \<open>[7, 12)\<close> and \<open>[9, 10)\<close> are members of two clusters.
\<close>

theorem stale_cluster_remains:
  "(case layOutDay stale_input of
      Inl e \<Rightarrow> False
    | Inr cal \<Rightarrow> collision_clusters cal = [[0, 1, 4, 5, 3, 2], [4, 5]])"
  by code_simp

text \<open>
  C1 says that two events that collide in time get disjoint horizontal ranges
  \<open>[left, left + width)\<close>. On \<open>lost_input\<close> the same merge splices out position 1 and then position 2, which
  by then holds the cluster of the event \<open>[10, 11)\<close>, a cluster that took no part in
  the merge. That event is in no cluster any more, and it is not resized when the
  event \<open>[3, 11)\<close>, which collides with it, is placed in column 4: the two events
  collide in time and their horizontal ranges \<open>[0, 600)\<close> and \<open>[450, 600)\<close> overlap.
\<close>

theorem colliding_events_overlap:
  "(case layOutDay lost_input of
      Inl e \<Rightarrow> False
    | Inr cal \<Rightarrow>
        checkCollision (objs cal ! 3) (objs cal ! 7) \<and>
        left (objs cal ! 3) = Finite 450 \<and> width (objs cal ! 3) = Finite 150 \<and>
        left (objs cal ! 7) = Finite 0 \<and> width (objs cal ! 7) = Finite 600 \<and>
        js_less (left (objs cal ! 7)) (js_add (left (objs cal ! 3)) (width (objs cal ! 3))) \<and>
        js_less (left (objs cal ! 3)) (js_add (left (objs cal ! 7)) (width (objs cal ! 7))))"
  by code_simp

text \<open>
  C4 says that the width of an event is the width of the calendar divided by the
  greatest column among the events connected to it by collisions. On \<open>lost_input\<close>
  four columns are opened; the event \<open>[10, 11)\<close> collides with the event \<open>[3, 11)\<close> of
  column 4, so the greatest column of its cluster is 4, but its width is 600, not
  \<open>600 / 4\<close>.
\<close>

theorem width_ignores_cluster_column:
  "(case layOutDay lost_input of
      Inl e \<Rightarrow> False
    | Inr cal \<Rightarrow>
        length (events_calculated cal) = 4 \<and>
        checkCollision (objs cal ! 7) (objs cal ! 3) \<and>
        column (objs cal ! 7) = 1 \<and> column (objs cal ! 3) = 4 \<and>
        width (objs cal ! 7) = Finite 600 \<and> js_div (cal_width cal) 4 = Finite 150 \<and>
        width (objs cal ! 7) \<noteq> js_div (cal_width cal) 4)"
  by code_simp

text \<open>
  On \<open>fault_input\<close> the same merge removes the cluster of the events \<open>[10, 12)\<close> and
  \<open>[10, 15)\<close>. The event \<open>[11, 14)\<close>, placed next, collides with these two only, finds no
  cluster, and the \<open>push\<close> onto \<open>collision_clusters[undefined]\<close> throws.
\<close>

lemma fault_input_throws: "layOutDay fault_input = Inl TypeError"
  by code_simp

end
